theory Spec2Isabelle
  imports Main "HOL-Library.Sublist"
begin

section \<open>The daemon's configuration store (daemon/daemon\_config.c)\<close>

subsection \<open>Constants of daemon\_config.h and daemon\_config.c\<close>

definition CONFIG_LIST_MAX :: nat where
  "CONFIG_LIST_MAX = 32"

definition CONFIG_VALUE_MAX :: nat where
  "CONFIG_VALUE_MAX = 256"

definition DEFAULT_REAPER_FREQ :: int where
  "DEFAULT_REAPER_FREQ = 5"

subsection \<open>C strings and the string functions of libc\<close>

text \<open>
  A C \<open>char\<close> is a byte, modelled by HOL's eight-bit \<open>char\<close>. A buffer, or the memory
  a \<open>const char *\<close> points to, is a list of bytes; the C string it holds is what stands
  before the first NUL byte (or the whole list when it holds none).
\<close>

abbreviation NUL :: char where
  "NUL \<equiv> CHR 0x00"

definition cstr :: "string \<Rightarrow> string" where
  "cstr s = takeWhile (\<lambda>c. c \<noteq> NUL) s"

definition strlen :: "string \<Rightarrow> nat" where
  "strlen s = length (cstr s)"

text \<open>
  \<open>strncpy(dest, src, n)\<close>: the first \<open>n\<close> bytes of \<open>dest\<close> become the first \<open>n\<close>
  bytes of the string \<open>src\<close>, padded with NUL bytes up to \<open>n\<close> when \<open>src\<close> is shorter.
  The result is the new content of \<open>dest\<close>.
\<close>

definition strncpy :: "string \<Rightarrow> string \<Rightarrow> nat \<Rightarrow> string" where
  "strncpy dest src n = take n (cstr src) @ replicate (n - strlen src) NUL @ drop n dest"

text \<open>\<open>memset(dest, c, n)\<close>: the first \<open>n\<close> bytes of \<open>dest\<close> become \<open>c\<close>.\<close>

definition memset :: "string \<Rightarrow> char \<Rightarrow> nat \<Rightarrow> string" where
  "memset dest c n = replicate n c @ drop n dest"

text \<open>
  \<open>strstr(haystack, needle)\<close>: the part of \<open>haystack\<close> that starts at the first
  occurrence of the string \<open>needle\<close>, or \<open>None\<close> for the null pointer.
\<close>

fun strstr_from :: "string \<Rightarrow> string \<Rightarrow> string option" where
  "strstr_from [] n = (if n = [] then Some [] else None)"
| "strstr_from (c # h) n = (if prefix n (c # h) then Some (c # h) else strstr_from h n)"

definition strstr :: "string \<Rightarrow> string \<Rightarrow> string option" where
  "strstr haystack needle = strstr_from (cstr haystack) (cstr needle)"

text \<open>\<open>strcmp(a, b)\<close>: zero exactly when the two strings are equal, else the sign of
  the first differing byte, compared as unsigned.\<close>

fun strcmp_from :: "string \<Rightarrow> string \<Rightarrow> int" where
  "strcmp_from [] [] = 0"
| "strcmp_from [] (y # ys) = - 1"
| "strcmp_from (x # xs) [] = 1"
| "strcmp_from (x # xs) (y # ys) =
     (if x = y then strcmp_from xs ys
      else if (of_char x :: nat) < of_char y then - 1 else 1)"

definition strcmp :: "string \<Rightarrow> string \<Rightarrow> int" where
  "strcmp a b = strcmp_from (cstr a) (cstr b)"

subsection \<open>struct GameModeConfig\<close>

text \<open>
  \<open>char list[CONFIG_LIST_MAX][CONFIG_VALUE_MAX]\<close> is a list of \<open>CONFIG_LIST_MAX\<close>
  slots of \<open>CONFIG_VALUE_MAX\<close> bytes each. The lock is left out: every function below
  runs from taking it to releasing it.
\<close>

type_synonym slot = string
type_synonym char_list = "slot list"

record GameModeConfig =
  inotfd :: int
  inotwd :: int
  whitelist :: char_list
  blacklist :: char_list
  startscripts :: char_list
  endscripts :: char_list
  reaper_frequency :: int

definition wf_slot :: "slot \<Rightarrow> bool" where
  "wf_slot s = (length s = CONFIG_VALUE_MAX)"

definition wf_list :: "char_list \<Rightarrow> bool" where
  "wf_list l = (length l = CONFIG_LIST_MAX \<and> list_all wf_slot l)"

text \<open>A slot is empty when its first byte is NUL: that is the test the code makes.\<close>

definition slot_empty :: "slot \<Rightarrow> bool" where
  "slot_empty s = (s ! 0 = NUL)"

definition zero_slot :: slot where
  "zero_slot = replicate CONFIG_VALUE_MAX NUL"

definition zero_list :: char_list where
  "zero_list = replicate CONFIG_LIST_MAX zero_slot"

subsection \<open>append\_value\_to\_list\<close>

text \<open>
  The scan \<open>while (*list[i] && ++i < CONFIG_LIST_MAX);\<close> started at \<open>i\<close>: it stops at
  the first slot whose first byte is NUL, or at \<open>CONFIG_LIST_MAX\<close>.
\<close>

function scan_list :: "char_list \<Rightarrow> nat \<Rightarrow> nat" where
  "scan_list list i =
     (if list ! i ! 0 \<noteq> NUL
      then (if Suc i < CONFIG_LIST_MAX then scan_list list (Suc i) else Suc i)
      else i)"
  by pat_completeness auto
termination
  by (relation "measure (\<lambda>(list, i). CONFIG_LIST_MAX - i)") auto

declare scan_list.simps [simp del]

definition append_value_to_list :: "string \<Rightarrow> string \<Rightarrow> char_list \<Rightarrow> bool \<times> char_list" where
  "append_value_to_list list_name value list =
     (let i = scan_list list 0 in
      if i < CONFIG_LIST_MAX then
        (let list1 = list[i := strncpy (list ! i) value CONFIG_VALUE_MAX] in
         if list1 ! i ! (CONFIG_VALUE_MAX - 1) \<noteq> NUL
         then (False, list1[i := memset (list1 ! i) NUL CONFIG_VALUE_MAX])
         else (True, list1))
      else (False, list))"

subsection \<open>get\_long\_value\<close>

text \<open>
  \<open>long\<close> is 64 bits wide on the daemon's platform (Linux, LP64); values of type
  \<open>long\<close> are integers between these bounds.
\<close>

definition LONG_MAX :: int where
  "LONG_MAX = 2 ^ 63 - 1"

definition LONG_MIN :: int where
  "LONG_MIN = - (2 ^ 63)"

definition ERANGE :: int where
  "ERANGE = 34"

definition isspace :: "char \<Rightarrow> bool" where
  "isspace c = (c = CHR '' '' \<or> c = CHR 0x09 \<or> c = CHR 0x0A \<or> c = CHR 0x0B
                \<or> c = CHR 0x0C \<or> c = CHR 0x0D)"

definition isdigit :: "char \<Rightarrow> bool" where
  "isdigit c = ((48::nat) \<le> of_char c \<and> of_char c \<le> (57::nat))"

fun digits_value :: "int \<Rightarrow> string \<Rightarrow> int" where
  "digits_value acc [] = acc"
| "digits_value acc (c # cs) = digits_value (acc * 10 + (of_char c - 48)) cs"

text \<open>
  \<open>strtol(nptr, &end, 10)\<close> of libc, as the C standard describes it: white space is
  skipped, then an optional sign and the longest run of decimal digits are read. The
  result is the value read, \<open>end\<close> (given here as the string that starts at \<open>end\<close>)
  and the new value of \<open>errno\<close>. With no digit, nothing is converted: the value is 0
  and \<open>end\<close> is \<open>nptr\<close>. A value outside the range of \<open>long\<close> gives \<open>LONG_MAX\<close> or
  \<open>LONG_MIN\<close> and stores \<open>ERANGE\<close> in \<open>errno\<close>; in every other case \<open>errno\<close> is
  left as it was.
\<close>

definition strtol :: "string \<Rightarrow> int \<Rightarrow> int \<times> string \<times> int" where
  "strtol nptr errno =
     (let s = cstr nptr;
          s1 = dropWhile isspace s;
          neg = (s1 \<noteq> [] \<and> hd s1 = CHR ''-'');
          s2 = (if s1 \<noteq> [] \<and> (hd s1 = CHR ''-'' \<or> hd s1 = CHR ''+'') then tl s1 else s1);
          ds = takeWhile isdigit s2;
          n = digits_value 0 ds;
          v = (if neg then - n else n)
      in if ds = [] then (0, s, errno)
         else if v > LONG_MAX then (LONG_MAX, dropWhile isdigit s2, ERANGE)
         else if v < LONG_MIN then (LONG_MIN, dropWhile isdigit s2, ERANGE)
         else (v, dropWhile isdigit s2, errno))"

text \<open>
  \<open>get_long_value(value_name, value, &output)\<close>, with \<open>errno\<close> as it is on entry. The
  result is the return value, the content of \<open>output\<close> and \<open>errno\<close> afterwards. The
  function reads \<open>errno\<close> after \<open>strtol\<close> without having cleared it before. Writing
  the log is taken to leave \<open>errno\<close> as it is.
\<close>

definition get_long_value :: "string \<Rightarrow> string \<Rightarrow> int \<Rightarrow> int \<Rightarrow> bool \<times> int \<times> int" where
  "get_long_value value_name value output errno =
     (case strtol value errno of (config_value, end, errno') \<Rightarrow>
        if errno' = ERANGE then (False, output, errno')
        else if config_value \<le> 0 \<or> \<not> (cstr value \<noteq> [] \<and> end = []) then (False, output, errno')
        else (True, config_value, errno'))"

subsection \<open>inih\_handler\<close>

text \<open>
  The handler works on the configuration and on \<open>errno\<close>; it returns 1 in every case,
  which tells the tokenizer to go on.
\<close>

definition inih_handler ::
  "GameModeConfig \<times> int \<Rightarrow> string \<Rightarrow> string \<Rightarrow> string \<Rightarrow> int \<times> GameModeConfig \<times> int" where
  "inih_handler user section name value =
     (case user of (self, errno) \<Rightarrow>
        if strcmp section ''filter'' = 0 then
          (if strcmp name ''whitelist'' = 0 then
             (case append_value_to_list name value (whitelist self) of
                (valid, l) \<Rightarrow> (1, self\<lparr>whitelist := l\<rparr>, errno))
           else if strcmp name ''blacklist'' = 0 then
             (case append_value_to_list name value (blacklist self) of
                (valid, l) \<Rightarrow> (1, self\<lparr>blacklist := l\<rparr>, errno))
           else (1, self, errno))
        else if strcmp section ''general'' = 0 then
          (if strcmp name ''reaper_freq'' = 0 then
             (case get_long_value name value (reaper_frequency self) errno of
                (valid, out, errno') \<Rightarrow> (1, self\<lparr>reaper_frequency := out\<rparr>, errno'))
           else (1, self, errno))
        else if strcmp section ''custom'' = 0 then
          (if strcmp name ''start'' = 0 then
             (case append_value_to_list name value (startscripts self) of
                (valid, l) \<Rightarrow> (1, self\<lparr>startscripts := l\<rparr>, errno))
           else if strcmp name ''end'' = 0 then
             (case append_value_to_list name value (endscripts self) of
                (valid, l) \<Rightarrow> (1, self\<lparr>endscripts := l\<rparr>, errno))
           else (1, self, errno))
        else (1, self, errno))"

subsection \<open>load\_config\_file\<close>

text \<open>
  The tokenizer (inih's \<open>ini_parse_file\<close>) is not part of the daemon. Of a file it is
  given, all that matters here is the sequence of section, name and value triples it
  reports: it calls the handler once for each of them, in the file's order, and goes on
  whatever the handler returns (a zero only makes it remember the line as an error).
\<close>

type_synonym ini_entry = "string \<times> string \<times> string"

fun ini_parse_file :: "ini_entry list \<Rightarrow> GameModeConfig \<times> int \<Rightarrow> GameModeConfig \<times> int" where
  "ini_parse_file [] user = user"
| "ini_parse_file ((section, name, value) # f) user =
     ini_parse_file f (snd (inih_handler user section name value))"

text \<open>
  \<open>fopen\<close> on one of the two candidate paths either opens a file or fails, leaving
  its error code in \<open>errno\<close>.
\<close>

datatype fopen_result = Opened "ini_entry list" | Failed int

text \<open>
  \<open>load_config_file(self)\<close>, given what \<open>fopen\<close> finds in the working directory and
  under \<open>CONFIG_DIR\<close>. The four \<open>memset\<close> calls and the assignment that clear the
  configuration are \<open>clear_config\<close>. Library calls that succeed are taken to leave
  \<open>errno\<close> as it is.
\<close>

definition clear_config :: "GameModeConfig \<Rightarrow> GameModeConfig" where
  "clear_config self =
     self\<lparr>whitelist := zero_list, blacklist := zero_list,
          startscripts := zero_list, endscripts := zero_list,
          reaper_frequency := DEFAULT_REAPER_FREQ\<rparr>"

definition load_config_file ::
  "fopen_result \<Rightarrow> fopen_result \<Rightarrow> GameModeConfig \<times> int \<Rightarrow> GameModeConfig \<times> int" where
  "load_config_file local system user =
     (case user of (self, errno) \<Rightarrow>
        (let self1 = clear_config self
         in (case local of
               Opened f \<Rightarrow> ini_parse_file f (self1, errno)
             | Failed e1 \<Rightarrow>
                 (case system of
                    Opened f \<Rightarrow> ini_parse_file f (self1, e1)
                  | Failed e2 \<Rightarrow> (self1, e2)))))"

definition config_init ::
  "fopen_result \<Rightarrow> fopen_result \<Rightarrow> GameModeConfig \<times> int \<Rightarrow> GameModeConfig \<times> int" where
  "config_init local system user = load_config_file local system user"

definition config_reload ::
  "fopen_result \<Rightarrow> fopen_result \<Rightarrow> GameModeConfig \<times> int \<Rightarrow> GameModeConfig \<times> int" where
  "config_reload local system user = load_config_file local system user"

subsection \<open>The queries\<close>

text \<open>
  The loop of both queries,
  \<open>for (i = 0; i < CONFIG_LIST_MAX && list[i][0]; i++) if (strstr(client, list[i])) found = true;\<close>
  from index \<open>i\<close> on.
\<close>

function strstr_loop :: "char_list \<Rightarrow> string \<Rightarrow> nat \<Rightarrow> bool \<Rightarrow> bool" where
  "strstr_loop list client i found =
     (if i < CONFIG_LIST_MAX \<and> list ! i ! 0 \<noteq> NUL
      then strstr_loop list client (Suc i) (if strstr client (list ! i) \<noteq> None then True else found)
      else found)"
  by pat_completeness auto
termination
  by (relation "measure (\<lambda>(list, client, i, found). CONFIG_LIST_MAX - i)") auto

declare strstr_loop.simps [simp del]

definition config_get_client_whitelisted :: "GameModeConfig \<Rightarrow> string \<Rightarrow> bool" where
  "config_get_client_whitelisted self client =
     (if whitelist self ! 0 ! 0 \<noteq> NUL then strstr_loop (whitelist self) client 0 False else True)"

definition config_get_client_blacklisted :: "GameModeConfig \<Rightarrow> string \<Rightarrow> bool" where
  "config_get_client_blacklisted self client = strstr_loop (blacklist self) client 0 False"

definition config_get_reaper_thread_frequency :: "GameModeConfig \<Rightarrow> int" where
  "config_get_reaper_thread_frequency self = reaper_frequency self"

subsection \<open>What a list holds\<close>

text \<open>
  The notions the properties below are stated with: the index of the first empty slot
  (the list's length when every slot is occupied), the number of occupied slots, the
  entries of a list (the strings of the slots before the first empty one), the invariant
  that no occupied slot follows an empty one, and slots that hold a terminated string.
\<close>

definition first_empty :: "char_list \<Rightarrow> nat" where
  "first_empty l = length (takeWhile (\<lambda>s. \<not> slot_empty s) l)"

definition occupied_count :: "char_list \<Rightarrow> nat" where
  "occupied_count l = length (filter (\<lambda>s. \<not> slot_empty s) l)"

definition entries :: "char_list \<Rightarrow> string list" where
  "entries l = map cstr (takeWhile (\<lambda>s. \<not> slot_empty s) l)"

definition contiguous :: "char_list \<Rightarrow> bool" where
  "contiguous l = list_all slot_empty (dropWhile (\<lambda>s. \<not> slot_empty s) l)"

definition terminated :: "char_list \<Rightarrow> bool" where
  "terminated l = list_all (\<lambda>s. NUL \<in> set s) l"

text \<open>Lists for examples: the given strings in the first slots, all other slots zero.\<close>

definition slot_of :: "string \<Rightarrow> slot" where
  "slot_of v = strncpy zero_slot v CONFIG_VALUE_MAX"

definition list_of :: "string list \<Rightarrow> char_list" where
  "list_of vs = take CONFIG_LIST_MAX (map slot_of vs @ zero_list)"

text \<open>The configuration a load leaves when it finds no file, with no watch set up.\<close>

definition default_config :: GameModeConfig where
  "default_config =
     \<lparr>inotfd = 0, inotwd = 0, whitelist = zero_list, blacklist = zero_list,
      startscripts = zero_list, endscripts = zero_list,
      reaper_frequency = DEFAULT_REAPER_FREQ\<rparr>"

text \<open>
  What holds of the configuration after every load (\<open>load_config_file_ok\<close> below):
  each list has its dimensions, each slot holds a terminated string, no occupied slot
  follows an empty one, and the reaper frequency is positive.
\<close>

definition list_ok :: "char_list \<Rightarrow> bool" where
  "list_ok l = (wf_list l \<and> terminated l \<and> contiguous l)"

definition config_ok :: "GameModeConfig \<Rightarrow> bool" where
  "config_ok self =
     (list_ok (whitelist self) \<and> list_ok (blacklist self) \<and>
      list_ok (startscripts self) \<and> list_ok (endscripts self) \<and>
      0 < reaper_frequency self)"

text \<open>The values a file gives for one section and key, in the file's order.\<close>

definition values_of :: "string \<Rightarrow> string \<Rightarrow> ini_entry list \<Rightarrow> string list" where
  "values_of sec key f =
     map (\<lambda>(s, n, v). v) (filter (\<lambda>(s, n, v). cstr s = sec \<and> cstr n = key) f)"

text \<open>A sequence of appends to one list, with the result of each.\<close>

fun append_values :: "string \<Rightarrow> string list \<Rightarrow> char_list \<Rightarrow> bool list \<times> char_list" where
  "append_values list_name [] l = ([], l)"
| "append_values list_name (v # vs) l =
     (case append_value_to_list list_name v l of
        (ok, l1) \<Rightarrow> (case append_values list_name vs l1 of (oks, l2) \<Rightarrow> (ok # oks, l2)))"

section \<open>Facts about the model\<close>

lemma cstr_no_NUL: "NUL \<notin> set (cstr s)"
  unfolding cstr_def by (induction s) auto

lemma cstr_idem: "NUL \<notin> set s \<Longrightarrow> cstr s = s"
  unfolding cstr_def by (induction s) auto

lemma cstr_Nil_iff: "cstr s = [] \<longleftrightarrow> (s = [] \<or> hd s = NUL)"
  unfolding cstr_def by (cases s) auto

lemma strcmp_from_zero: "strcmp_from xs ys = 0 \<longleftrightarrow> xs = ys"
  by (induction xs ys rule: strcmp_from.induct) auto

lemma strcmp_zero: "strcmp a b = 0 \<longleftrightarrow> cstr a = cstr b"
  by (simp add: strcmp_def strcmp_from_zero)

lemma strstr_from_sublist: "strstr_from h n \<noteq> None \<longleftrightarrow> sublist n h"
  by (induction h) (auto simp: sublist_Cons_right)

lemma strstr_sublist: "strstr h n \<noteq> None \<longleftrightarrow> sublist (cstr n) (cstr h)"
  unfolding strstr_def by (rule strstr_from_sublist)

lemma scan_list_drop:
  "i < CONFIG_LIST_MAX \<Longrightarrow> length l = CONFIG_LIST_MAX \<Longrightarrow>
   scan_list l i = i + first_empty (drop i l)"
proof (induction l i rule: scan_list.induct)
  case (1 list i)
  have d: "drop i list = list ! i # drop (Suc i) list"
    using 1 by (simp add: Cons_nth_drop_Suc)
  show ?case
  proof (cases "list ! i ! 0 \<noteq> NUL")
    case occ: True
    show ?thesis
    proof (cases "Suc i < CONFIG_LIST_MAX")
      case True
      with 1 occ have "scan_list list (Suc i) = Suc i + first_empty (drop (Suc i) list)"
        by simp
      with occ True show ?thesis
        by (subst scan_list.simps) (simp add: d first_empty_def slot_empty_def)
    next
      case False
      with 1 have "drop (Suc i) list = []" by simp
      with occ False show ?thesis
        by (subst scan_list.simps) (simp add: d first_empty_def slot_empty_def)
    qed
  next
    case False
    then show ?thesis
      by (subst scan_list.simps) (simp add: d first_empty_def slot_empty_def)
  qed
qed

lemma scan_list_first_empty:
  "length l = CONFIG_LIST_MAX \<Longrightarrow> scan_list l 0 = first_empty l"
  using scan_list_drop [of 0 l] by (simp add: CONFIG_LIST_MAX_def)

lemma first_empty_le: "first_empty l \<le> length l"
  by (simp add: first_empty_def length_takeWhile_le)

lemma first_empty_slot: "first_empty l < length l \<Longrightarrow> slot_empty (l ! first_empty l)"
  unfolding first_empty_def using nth_length_takeWhile [of "\<lambda>s. \<not> slot_empty s" l] by simp

lemma before_first_empty: "j < first_empty l \<Longrightarrow> \<not> slot_empty (l ! j)"
  unfolding first_empty_def
  using takeWhile_nth [of j "\<lambda>s. \<not> slot_empty s" l] nth_mem [of j "takeWhile (\<lambda>s. \<not> slot_empty s) l"]
  by (auto dest: set_takeWhileD)


lemma wf_list_nth: "wf_list l \<Longrightarrow> i < CONFIG_LIST_MAX \<Longrightarrow> length (l ! i) = CONFIG_VALUE_MAX"
  by (simp add: wf_list_def wf_slot_def list_all_length)

lemma wf_list_update:
  "wf_list l \<Longrightarrow> length s = CONFIG_VALUE_MAX \<Longrightarrow> wf_list (l[i := s])"
  by (auto simp: wf_list_def wf_slot_def list_all_iff dest: set_update_subset_insert [THEN subsetD])

lemma strncpy_slot:
  "length d = CONFIG_VALUE_MAX \<Longrightarrow>
   strncpy d v CONFIG_VALUE_MAX =
     take CONFIG_VALUE_MAX (cstr v) @ replicate (CONFIG_VALUE_MAX - strlen v) NUL"
  by (simp add: strncpy_def)

lemma strncpy_last_long:
  assumes "CONFIG_VALUE_MAX \<le> strlen v"
  shows "strncpy d v CONFIG_VALUE_MAX ! (CONFIG_VALUE_MAX - 1) \<noteq> NUL"
proof -
  have pos: "CONFIG_VALUE_MAX - 1 < CONFIG_VALUE_MAX" by (simp add: CONFIG_VALUE_MAX_def)
  with assms have lt: "CONFIG_VALUE_MAX - 1 < length (cstr v)" by (simp add: strlen_def)
  have "strncpy d v CONFIG_VALUE_MAX ! (CONFIG_VALUE_MAX - 1) = cstr v ! (CONFIG_VALUE_MAX - 1)"
    using assms pos lt by (simp add: strncpy_def strlen_def nth_append)
  moreover have "cstr v ! (CONFIG_VALUE_MAX - 1) \<in> set (cstr v)"
    using lt by (rule nth_mem)
  ultimately show ?thesis using cstr_no_NUL [of v] by metis
qed

lemma strncpy_last_short:
  assumes "strlen v < CONFIG_VALUE_MAX"
  shows "strncpy d v CONFIG_VALUE_MAX ! (CONFIG_VALUE_MAX - 1) = NUL"
proof -
  have eq: "strncpy d v CONFIG_VALUE_MAX =
              cstr v @ replicate (CONFIG_VALUE_MAX - strlen v) NUL @ drop CONFIG_VALUE_MAX d"
    using assms by (simp add: strncpy_def strlen_def)
  have a: "\<not> CONFIG_VALUE_MAX - 1 < length (cstr v)"
    using assms by (simp add: strlen_def)
  have b: "CONFIG_VALUE_MAX - 1 - length (cstr v) < CONFIG_VALUE_MAX - strlen v"
    using assms by (simp add: strlen_def)
  show ?thesis
    using a b by (simp add: eq nth_append del: One_nat_def)
qed

lemma append_value_short:
  assumes "wf_list l" "first_empty l < CONFIG_LIST_MAX" "strlen v < CONFIG_VALUE_MAX"
  shows "append_value_to_list n v l =
           (True, l[first_empty l := cstr v @ replicate (CONFIG_VALUE_MAX - strlen v) NUL])"
proof -
  have len: "length l = CONFIG_LIST_MAX" using assms by (simp add: wf_list_def)
  have sc: "scan_list l 0 = first_empty l" using len by (rule scan_list_first_empty)
  have sl: "length (l ! first_empty l) = CONFIG_VALUE_MAX"
    using assms by (simp add: wf_list_nth)
  have cp: "strncpy (l ! first_empty l) v CONFIG_VALUE_MAX =
              cstr v @ replicate (CONFIG_VALUE_MAX - strlen v) NUL"
    using sl assms(3) by (simp add: strncpy_slot strlen_def)
  have "l[first_empty l := strncpy (l ! first_empty l) v CONFIG_VALUE_MAX] ! first_empty l
          ! (CONFIG_VALUE_MAX - 1) = NUL"
    using strncpy_last_short [OF assms(3)] assms(2) len by simp
  then show ?thesis
    using assms(2) by (simp add: append_value_to_list_def sc Let_def cp [symmetric])
qed

lemma append_value_long:
  assumes "wf_list l" "first_empty l < CONFIG_LIST_MAX" "CONFIG_VALUE_MAX \<le> strlen v"
  shows "append_value_to_list n v l = (False, l[first_empty l := zero_slot])"
proof -
  have len: "length l = CONFIG_LIST_MAX" using assms by (simp add: wf_list_def)
  have sc: "scan_list l 0 = first_empty l" using len by (rule scan_list_first_empty)
  have sl: "length (l ! first_empty l) = CONFIG_VALUE_MAX"
    using assms by (simp add: wf_list_nth)
  have "l[first_empty l := strncpy (l ! first_empty l) v CONFIG_VALUE_MAX] ! first_empty l
          ! (CONFIG_VALUE_MAX - 1) \<noteq> NUL"
    using strncpy_last_long [OF assms(3)] assms(2) len by simp
  moreover have "memset (strncpy (l ! first_empty l) v CONFIG_VALUE_MAX) NUL CONFIG_VALUE_MAX = zero_slot"
    using sl by (simp add: memset_def zero_slot_def strncpy_def strlen_def)
  ultimately show ?thesis
    using assms(2) len by (simp add: append_value_to_list_def sc Let_def)
qed

lemma append_value_full:
  assumes "wf_list l" "first_empty l = CONFIG_LIST_MAX"
  shows "append_value_to_list n v l = (False, l)"
proof -
  have "scan_list l 0 = first_empty l"
    using assms by (simp add: scan_list_first_empty wf_list_def)
  with assms(2) show ?thesis by (simp add: append_value_to_list_def)
qed


lemma first_empty_decomp:
  assumes "first_empty l < length l"
  obtains pre post where "l = pre @ (l ! first_empty l) # post"
    and "length pre = first_empty l"
    and "\<forall>s\<in>set pre. \<not> slot_empty s"
    and "slot_empty (l ! first_empty l)"
proof
  let ?P = "\<lambda>s. \<not> slot_empty s"
  have tw: "takeWhile ?P l = take (first_empty l) l"
    unfolding first_empty_def by (rule takeWhile_eq_take)
  show "l = takeWhile ?P l @ (l ! first_empty l) # drop (Suc (first_empty l)) l"
    using assms id_take_nth_drop [of "first_empty l" l] by (simp add: tw)
  show "length (takeWhile ?P l) = first_empty l" by (simp add: first_empty_def)
  show "\<forall>s\<in>set (takeWhile ?P l). \<not> slot_empty s" by (auto dest: set_takeWhileD)
  show "slot_empty (l ! first_empty l)" using assms by (rule first_empty_slot)
qed

lemma first_empty_append:
  "\<forall>s\<in>set pre. \<not> slot_empty s \<Longrightarrow>
   first_empty (pre @ e # post) = (if slot_empty e then length pre else Suc (length pre) + first_empty post)"
  by (simp add: first_empty_def takeWhile_append2)

lemma occupied_count_append:
  "\<forall>s\<in>set pre. \<not> slot_empty s \<Longrightarrow>
   occupied_count (pre @ e # post) =
     length pre + (if slot_empty e then 0 else 1) + occupied_count post"
  by (simp add: occupied_count_def)

lemma contiguous_append:
  "\<forall>s\<in>set pre. \<not> slot_empty s \<Longrightarrow>
   contiguous (pre @ e # post) = (if slot_empty e then list_all slot_empty post else contiguous post)"
  by (simp add: contiguous_def dropWhile_append2)

lemma contiguous_all_empty: "list_all slot_empty post \<Longrightarrow> contiguous post"
  by (auto simp: contiguous_def list_all_iff dest: set_dropWhileD)

lemma occupied_count_le: "occupied_count l \<le> length l"
  by (simp add: occupied_count_def)

lemma first_empty_full_iff: "first_empty l = length l \<longleftrightarrow> occupied_count l = length l"
proof
  assume "first_empty l = length l"
  then have "takeWhile (\<lambda>s. \<not> slot_empty s) l = l"
    by (metis first_empty_def takeWhile_eq_take take_all order_refl)
  then have "\<forall>s\<in>set l. \<not> slot_empty s" by (metis set_takeWhileD)
  then show "occupied_count l = length l" by (simp add: occupied_count_def)
next
  assume "occupied_count l = length l"
  then have "\<forall>s\<in>set l. \<not> slot_empty s"
    unfolding occupied_count_def by (metis length_filter_less less_irrefl)
  then have "takeWhile (\<lambda>s. \<not> slot_empty s) l = l"
    by (simp only: takeWhile_eq_all_conv)
  then show "first_empty l = length l"
    unfolding first_empty_def by (rule arg_cong)
qed

lemma first_empty_lt_iff: "first_empty l < length l \<longleftrightarrow> occupied_count l < length l"
  using first_empty_full_iff [of l] first_empty_le [of l] occupied_count_le [of l] by linarith

lemma slot_empty_zero_slot: "slot_empty zero_slot"
  by (simp add: slot_empty_def zero_slot_def CONFIG_VALUE_MAX_def)

lemma slot_empty_padded:
  "slot_empty (cstr v @ replicate (CONFIG_VALUE_MAX - strlen v) NUL) \<longleftrightarrow> cstr v = []"
proof (cases "cstr v")
  case Nil
  then show ?thesis by (simp add: slot_empty_def strlen_def CONFIG_VALUE_MAX_def)
next
  case (Cons c cs)
  then have "c \<noteq> NUL" using cstr_no_NUL [of v] by auto
  with Cons show ?thesis by (simp add: slot_empty_def)
qed

lemma cstr_padded: "cstr (cstr v @ replicate n NUL) = cstr v"
proof -
  have a: "\<And>x. x \<in> set (cstr v) \<Longrightarrow> x \<noteq> NUL"
    using cstr_no_NUL [of v] by auto
  have "takeWhile (\<lambda>c. c \<noteq> NUL) (cstr v @ replicate n NUL) =
          cstr v @ takeWhile (\<lambda>c. c \<noteq> NUL) (replicate n NUL)"
    using a by (rule takeWhile_append2)
  moreover have "takeWhile (\<lambda>c. c \<noteq> NUL) (replicate n NUL) = []"
    by (cases n) simp_all
  ultimately show ?thesis by (simp add: cstr_def)
qed

lemma cstr_slot_empty: "s \<noteq> [] \<Longrightarrow> slot_empty s \<Longrightarrow> cstr s = []"
  by (cases s) (simp_all add: slot_empty_def cstr_def)


lemma append_value_wf:
  assumes "wf_list l"
  shows "wf_list (snd (append_value_to_list n v l))"
proof (cases "first_empty l < CONFIG_LIST_MAX")
  case True
  show ?thesis
  proof (cases "strlen v < CONFIG_VALUE_MAX")
    case short: True
    have "length (cstr v @ replicate (CONFIG_VALUE_MAX - strlen v) NUL) = CONFIG_VALUE_MAX"
      using short by (simp add: strlen_def)
    then show ?thesis
      using assms True short by (simp add: append_value_short wf_list_update)
  next
    case False
    then show ?thesis
      using assms True by (simp add: append_value_long wf_list_update zero_slot_def)
  qed
next
  case False
  then have "first_empty l = CONFIG_LIST_MAX"
    using first_empty_le [of l] assms by (simp add: wf_list_def)
  then show ?thesis using assms by (simp add: append_value_full)
qed

lemma append_value_contiguous:
  assumes "wf_list l" "contiguous l"
  shows "contiguous (snd (append_value_to_list n v l))"
proof (cases "first_empty l < CONFIG_LIST_MAX")
  case True
  then have lt: "first_empty l < length l" using assms by (simp add: wf_list_def)
  then obtain pre post where d: "l = pre @ (l ! first_empty l) # post"
    and lp: "length pre = first_empty l"
    and occ: "\<forall>s\<in>set pre. \<not> slot_empty s"
    and emp: "slot_empty (l ! first_empty l)"
    by (rule first_empty_decomp)
  have post: "list_all slot_empty post"
    using assms(2) occ emp by (subst (asm) d) (simp add: contiguous_append)
  have upd: "\<And>s. l[first_empty l := s] = pre @ s # post"
    using lp by (subst d) (simp add: list_update_append)
  have any: "\<And>s. contiguous (l[first_empty l := s])"
    using occ post by (simp add: upd contiguous_append contiguous_all_empty)
  show ?thesis
  proof (cases "strlen v < CONFIG_VALUE_MAX")
    case short: True
    show ?thesis using assms(1) True short any by (simp add: append_value_short)
  next
    case False
    then show ?thesis using assms(1) True any by (simp add: append_value_long)
  qed
next
  case False
  then have "first_empty l = CONFIG_LIST_MAX"
    using first_empty_le [of l] assms by (simp add: wf_list_def)
  then show ?thesis using assms by (simp add: append_value_full)
qed

lemma zero_list_wf: "wf_list zero_list"
  by (simp add: wf_list_def zero_list_def wf_slot_def zero_slot_def list_all_iff)

lemma zero_list_contiguous: "contiguous zero_list"
  by (rule contiguous_all_empty) (simp add: zero_list_def list_all_iff slot_empty_zero_slot)

lemma update_first_empty_empty:
  assumes "first_empty l < length l" "slot_empty s"
  shows "first_empty (l[first_empty l := s]) = first_empty l"
    and "occupied_count (l[first_empty l := s]) = occupied_count l"
proof -
  from assms(1) obtain pre post where d: "l = pre @ (l ! first_empty l) # post"
    and lp: "length pre = first_empty l"
    and occ: "\<forall>s\<in>set pre. \<not> slot_empty s"
    and emp: "slot_empty (l ! first_empty l)"
    by (rule first_empty_decomp)
  have upd: "l[first_empty l := s] = pre @ s # post"
    using lp by (subst d) (simp add: list_update_append)
  show "first_empty (l[first_empty l := s]) = first_empty l"
    using occ assms(2) lp by (simp add: upd first_empty_append)
  have "occupied_count l = length pre + occupied_count post"
    using occ emp by (subst d) (simp add: occupied_count_append)
  then show "occupied_count (l[first_empty l := s]) = occupied_count l"
    using occ assms(2) by (simp add: upd occupied_count_append)
qed

lemma update_first_empty_occupied:
  assumes "first_empty l < length l" "\<not> slot_empty s"
  shows "occupied_count (l[first_empty l := s]) = Suc (occupied_count l)"
proof -
  from assms(1) obtain pre post where d: "l = pre @ (l ! first_empty l) # post"
    and lp: "length pre = first_empty l"
    and occ: "\<forall>s\<in>set pre. \<not> slot_empty s"
    and emp: "slot_empty (l ! first_empty l)"
    by (rule first_empty_decomp)
  have upd: "l[first_empty l := s] = pre @ s # post"
    using lp by (subst d) (simp add: list_update_append)
  have "occupied_count l = length pre + occupied_count post"
    using occ emp by (subst d) (simp add: occupied_count_append)
  then show ?thesis
    using occ assms(2) by (simp add: upd occupied_count_append)
qed

lemma cstr_literal: "NUL \<notin> set s \<Longrightarrow> strlen s = length s"
  by (simp add: strlen_def cstr_idem)

lemma slot_of_padded:
  "strlen v < CONFIG_VALUE_MAX \<Longrightarrow>
   slot_of v = cstr v @ replicate (CONFIG_VALUE_MAX - strlen v) NUL"
  by (simp add: slot_of_def strncpy_def zero_slot_def strlen_def)

lemma slot_of_length: "strlen v < CONFIG_VALUE_MAX \<Longrightarrow> length (slot_of v) = CONFIG_VALUE_MAX"
  by (simp add: slot_of_padded) (simp add: strlen_def)

lemma slot_of_empty: "strlen v < CONFIG_VALUE_MAX \<Longrightarrow> slot_empty (slot_of v) \<longleftrightarrow> cstr v = []"
  by (simp add: slot_of_padded slot_empty_padded)

lemma slot_of_cstr: "strlen v < CONFIG_VALUE_MAX \<Longrightarrow> cstr (slot_of v) = cstr v"
  by (simp add: slot_of_padded cstr_padded)

lemma list_of_append:
  "length vs \<le> CONFIG_LIST_MAX \<Longrightarrow>
   list_of vs = map slot_of vs @ replicate (CONFIG_LIST_MAX - length vs) zero_slot"
  by (simp add: list_of_def zero_list_def)

lemma list_of_wf:
  assumes "length vs \<le> CONFIG_LIST_MAX" "\<forall>v\<in>set vs. strlen v < CONFIG_VALUE_MAX"
  shows "wf_list (list_of vs)"
  using assms
  by (auto simp: list_of_append wf_list_def wf_slot_def list_all_iff slot_of_length zero_slot_def)

lemma list_of_first_empty:
  assumes "length vs < CONFIG_LIST_MAX" "\<forall>v\<in>set vs. strlen v < CONFIG_VALUE_MAX \<and> cstr v \<noteq> []"
  shows "first_empty (list_of vs) = length vs"
    and "occupied_count (list_of vs) = length vs"
    and "contiguous (list_of vs)"
    and "entries (list_of vs) = map cstr vs"
proof -
  obtain k where k: "CONFIG_LIST_MAX - length vs = Suc k"
    using assms(1) by (cases "CONFIG_LIST_MAX - length vs") auto
  have eq: "list_of vs = map slot_of vs @ zero_slot # replicate k zero_slot"
    using assms(1) k by (simp add: list_of_append)
  have occ: "\<forall>s\<in>set (map slot_of vs). \<not> slot_empty s"
    using assms(2) by (auto simp: slot_of_empty)
  have rest: "list_all slot_empty (replicate k zero_slot)"
    by (simp add: list_all_iff slot_empty_zero_slot)
  show "first_empty (list_of vs) = length vs"
    using occ by (simp add: eq first_empty_append slot_empty_zero_slot)
  have "occupied_count (replicate k zero_slot) = 0"
    by (simp add: occupied_count_def slot_empty_zero_slot)
  then show "occupied_count (list_of vs) = length vs"
    using occ by (simp add: eq occupied_count_append slot_empty_zero_slot)
  show "contiguous (list_of vs)"
    using occ rest by (simp add: eq contiguous_append slot_empty_zero_slot)
  have "takeWhile (\<lambda>s. \<not> slot_empty s) (map slot_of vs @ zero_slot # replicate k zero_slot) =
          map slot_of vs @ takeWhile (\<lambda>s. \<not> slot_empty s) (zero_slot # replicate k zero_slot)"
    using occ by (intro takeWhile_append2) auto
  then have "takeWhile (\<lambda>s. \<not> slot_empty s) (list_of vs) = map slot_of vs"
    by (simp add: eq slot_empty_zero_slot)
  then show "entries (list_of vs) = map cstr vs"
    using assms(2) by (simp add: entries_def slot_of_cstr)
qed

lemma one_a: "length [''a''] < CONFIG_LIST_MAX"
  "\<forall>v\<in>set [''a'']. strlen v < CONFIG_VALUE_MAX \<and> cstr v \<noteq> []"
  by (simp_all add: CONFIG_LIST_MAX_def CONFIG_VALUE_MAX_def strlen_def cstr_def)

lemma long_value:
  "strlen (replicate CONFIG_VALUE_MAX (CHR ''a'')) = CONFIG_VALUE_MAX"
  by (simp add: cstr_literal)


lemma append_value_occupies:
  assumes "wf_list l" "occupied_count l < CONFIG_LIST_MAX"
    "cstr v \<noteq> []" "strlen v < CONFIG_VALUE_MAX"
  shows "fst (append_value_to_list n v l) = True"
    and "occupied_count (snd (append_value_to_list n v l)) = Suc (occupied_count l)"
proof -
  have len: "length l = CONFIG_LIST_MAX" using assms(1) by (simp add: wf_list_def)
  have fe: "first_empty l < CONFIG_LIST_MAX"
    using assms(2) first_empty_lt_iff [of l] by (simp add: len)
  then have fel: "first_empty l < length l" by (simp add: len)
  have eq: "append_value_to_list n v l =
      (True, l[first_empty l := cstr v @ replicate (CONFIG_VALUE_MAX - strlen v) NUL])"
    using assms(1) fe assms(4) by (rule append_value_short)
  show "fst (append_value_to_list n v l) = True" by (simp add: eq)
  have "\<not> slot_empty (cstr v @ replicate (CONFIG_VALUE_MAX - strlen v) NUL)"
    using assms(3) by (simp add: slot_empty_padded)
  then show "occupied_count (snd (append_value_to_list n v l)) = Suc (occupied_count l)"
    using fel by (simp add: eq update_first_empty_occupied)
qed

lemma append_value_when_full:
  assumes "wf_list l" "occupied_count l = CONFIG_LIST_MAX"
  shows "append_value_to_list n v l = (False, l)"
proof -
  have "length l = CONFIG_LIST_MAX" using assms(1) by (simp add: wf_list_def)
  then have "first_empty l = CONFIG_LIST_MAX"
    using assms(2) first_empty_full_iff [of l] by simp
  with assms(1) show ?thesis by (rule append_value_full)
qed

lemma append_values_results:
  assumes "wf_list l" "\<forall>v\<in>set vs. cstr v \<noteq> [] \<and> strlen v < CONFIG_VALUE_MAX"
  shows "fst (append_values n vs l) =
           replicate (min (length vs) (CONFIG_LIST_MAX - occupied_count l)) True @
           replicate (length vs - (CONFIG_LIST_MAX - occupied_count l)) False"
  using assms
proof (induction vs arbitrary: l)
  case Nil
  then show ?case by simp
next
  case (Cons v vs)
  have len: "length l = CONFIG_LIST_MAX" using Cons.prems(1) by (simp add: wf_list_def)
  have le: "occupied_count l \<le> CONFIG_LIST_MAX" using occupied_count_le [of l] by (simp add: len)
  obtain ok l1 where a: "append_value_to_list n v l = (ok, l1)" by (cases "append_value_to_list n v l")
  have wf1: "wf_list l1" using append_value_wf [OF Cons.prems(1), of n v] by (simp add: a)
  have rest: "\<forall>v\<in>set vs. cstr v \<noteq> [] \<and> strlen v < CONFIG_VALUE_MAX" using Cons.prems(2) by simp
  have IH: "fst (append_values n vs l1) =
           replicate (min (length vs) (CONFIG_LIST_MAX - occupied_count l1)) True @
           replicate (length vs - (CONFIG_LIST_MAX - occupied_count l1)) False"
    using wf1 rest by (rule Cons.IH)
  have step: "fst (append_values n (v # vs) l) = ok # fst (append_values n vs l1)"
    by (simp add: a split: prod.split)
  show ?case
  proof (cases "occupied_count l < CONFIG_LIST_MAX")
    case True
    have v: "cstr v \<noteq> []" "strlen v < CONFIG_VALUE_MAX" using Cons.prems(2) by simp_all
    have "ok = True" and oc: "occupied_count l1 = Suc (occupied_count l)"
      using append_value_occupies [OF Cons.prems(1) True v, of n] by (simp_all add: a)
    obtain k where k: "CONFIG_LIST_MAX - occupied_count l = Suc k"
      using True by (cases "CONFIG_LIST_MAX - occupied_count l") auto
    then have k1: "CONFIG_LIST_MAX - occupied_count l1 = k" using oc by simp
    show ?thesis unfolding step IH k k1 using \<open>ok = True\<close> by simp
  next
    case False
    then have full: "occupied_count l = CONFIG_LIST_MAX" using le by simp
    have "append_value_to_list n v l = (False, l)"
      using Cons.prems(1) full by (rule append_value_when_full)
    then have "ok = False" "l1 = l" using a by simp_all
    then show ?thesis unfolding step IH using full by simp
  qed
qed

lemma occupied_count_replicate:
  "occupied_count (replicate k s) = (if slot_empty s then 0 else k)"
  by (simp add: occupied_count_def)


lemma cstr_names [simp]:
  "cstr ''filter'' = ''filter''" "cstr ''whitelist'' = ''whitelist''"
  "cstr ''blacklist'' = ''blacklist''" "cstr ''general'' = ''general''"
  "cstr ''reaper_freq'' = ''reaper_freq''" "cstr ''custom'' = ''custom''"
  "cstr ''start'' = ''start''" "cstr ''end'' = ''end''"
  by (simp_all add: cstr_def)

lemma inih_handler_continue: "fst (inih_handler user section name value) = 1"
  by (cases user) (simp add: inih_handler_def split: prod.splits)


lemma strstr_loop_entries:
  "i \<le> CONFIG_LIST_MAX \<Longrightarrow> length l = CONFIG_LIST_MAX \<Longrightarrow>
   strstr_loop l client i found =
     (found \<or> (\<exists>s\<in>set (takeWhile (\<lambda>s. \<not> slot_empty s) (drop i l)). strstr client s \<noteq> None))"
proof (induction l client i found rule: strstr_loop.induct)
  case (1 list client i found)
  show ?case
  proof (cases "i < CONFIG_LIST_MAX")
    case True
    then have d: "drop i list = list ! i # drop (Suc i) list"
      using 1(3) by (simp add: Cons_nth_drop_Suc)
    show ?thesis
    proof (cases "list ! i ! 0 \<noteq> NUL")
      case occ: True
      have "strstr_loop list client (Suc i) (if strstr client (list ! i) \<noteq> None then True else found) =
              ((if strstr client (list ! i) \<noteq> None then True else found) \<or>
               (\<exists>s\<in>set (takeWhile (\<lambda>s. \<not> slot_empty s) (drop (Suc i) list)). strstr client s \<noteq> None))"
        using True occ 1(3) by (intro 1(1)) simp_all
      then show ?thesis
        using True occ
        by (subst strstr_loop.simps) (auto simp: d slot_empty_def)
    next
      case False
      then show ?thesis
        by (subst strstr_loop.simps) (simp add: d slot_empty_def)
    qed
  next
    case False
    then have "drop i list = []" using 1(3) by simp
    with False show ?thesis
      by (subst strstr_loop.simps) simp
  qed
qed

lemma strstr_Some_sublist: "(\<exists>y. strstr h n = Some y) \<longleftrightarrow> sublist (cstr n) (cstr h)"
  using strstr_sublist [of h n] by (simp only: not_None_eq)

lemma strstr_loop_sublist:
  assumes "length l = CONFIG_LIST_MAX"
  shows "strstr_loop l client 0 False = (\<exists>e\<in>set (entries l). sublist e (cstr client))"
  using strstr_loop_entries [of 0 l client False] assms
  by (simp add: entries_def strstr_Some_sublist)

lemma entries_Nil_iff: "l \<noteq> [] \<Longrightarrow> entries l = [] \<longleftrightarrow> l ! 0 ! 0 = NUL"
  by (cases l) (simp_all add: entries_def slot_empty_def)


lemma list_of_terminated:
  assumes "length vs \<le> CONFIG_LIST_MAX" "\<forall>v\<in>set vs. strlen v < CONFIG_VALUE_MAX"
  shows "terminated (list_of vs)"
proof -
  have z: "NUL \<in> set zero_slot" by (simp add: zero_slot_def CONFIG_VALUE_MAX_def)
  have "NUL \<in> set (slot_of v)" if "v \<in> set vs" for v
  proof -
    from that assms(2) have lt: "strlen v < CONFIG_VALUE_MAX" by simp
    then have "slot_of v = cstr v @ replicate (CONFIG_VALUE_MAX - strlen v) NUL"
      by (rule slot_of_padded)
    moreover have "NUL \<in> set (replicate (CONFIG_VALUE_MAX - strlen v) NUL)"
      using lt by simp
    ultimately show ?thesis by simp
  qed
  then show ?thesis
    using assms(1) z by (auto simp: terminated_def list_all_iff list_of_append)
qed

lemma sublist_strstr_from: "sublist n h \<longleftrightarrow> strstr_from h n \<noteq> None"
  by (simp only: strstr_from_sublist)


lemma strtol_10: "strtol ''10'' e = (10, [], e)"
  by (simp add: strtol_def cstr_def isspace_def isdigit_def LONG_MAX_def LONG_MIN_def Let_def)

lemma strtol_overflow: "strtol ''99999999999999999999'' e = (LONG_MAX, [], ERANGE)"
  by (simp add: strtol_def cstr_def isspace_def isdigit_def LONG_MAX_def LONG_MIN_def Let_def)

lemma get_long_value_10:
  "get_long_value n ''10'' out e = (if e = ERANGE then (False, out, e) else (True, 10, e))"
  by (simp add: get_long_value_def strtol_10) (simp add: cstr_def)

lemma get_long_value_overflow:
  "get_long_value n ''99999999999999999999'' out e = (False, out, ERANGE)"
  by (simp add: get_long_value_def strtol_overflow)

lemma inih_handler_reaper_freq:
  "inih_handler (self, e) ''general'' ''reaper_freq'' v =
     (case get_long_value ''reaper_freq'' v (reaper_frequency self) e of
        (valid, out, e') \<Rightarrow> (1, self\<lparr>reaper_frequency := out\<rparr>, e'))"
  by (simp add: inih_handler_def strcmp_zero)

lemma clear_config_prior:
  "inotfd a = inotfd b \<Longrightarrow> inotwd a = inotwd b \<Longrightarrow> clear_config a = clear_config b"
  by (cases a, cases b) (simp add: clear_config_def)

lemma load_config_file_prior:
  assumes "inotfd a = inotfd b" "inotwd a = inotwd b"
  shows "load_config_file local system (a, e) = load_config_file local system (b, e)"
  using clear_config_prior [OF assms] by (simp add: load_config_file_def)

lemma get_long_value_fresh_errno:
  assumes "errno \<noteq> ERANGE"
  shows "get_long_value n v out errno =
     (case strtol v 0 of (x, end, e) \<Rightarrow>
        if e = ERANGE \<or> x \<le> 0 \<or> cstr v = [] \<or> end \<noteq> [] then (False, out, if e = ERANGE then ERANGE else errno)
        else (True, x, errno))"
  using assms
  by (auto simp: get_long_value_def strtol_def Let_def ERANGE_def)


lemma terminated_update:
  "terminated l \<Longrightarrow> NUL \<in> set s \<Longrightarrow> terminated (l[i := s])"
  by (auto simp: terminated_def list_all_iff dest: set_update_subset_insert [THEN subsetD])

lemma append_value_terminated:
  assumes "wf_list l" "terminated l"
  shows "terminated (snd (append_value_to_list n v l))"
proof (cases "first_empty l < CONFIG_LIST_MAX")
  case True
  show ?thesis
  proof (cases "strlen v < CONFIG_VALUE_MAX")
    case short: True
    then have "NUL \<in> set (replicate (CONFIG_VALUE_MAX - strlen v) NUL)" by simp
    then have "NUL \<in> set (cstr v @ replicate (CONFIG_VALUE_MAX - strlen v) NUL)" by simp
    then show ?thesis
      using assms True short by (simp add: append_value_short terminated_update)
  next
    case False
    have "NUL \<in> set zero_slot" by (simp add: zero_slot_def CONFIG_VALUE_MAX_def)
    then show ?thesis
      using assms True False by (simp add: append_value_long terminated_update)
  qed
next
  case False
  then have "first_empty l = CONFIG_LIST_MAX"
    using first_empty_le [of l] assms by (simp add: wf_list_def)
  then show ?thesis using assms by (simp add: append_value_full)
qed

lemma append_value_ok: "list_ok l \<Longrightarrow> list_ok (snd (append_value_to_list n v l))"
  by (simp add: list_ok_def append_value_wf append_value_terminated append_value_contiguous)

lemma zero_list_ok: "list_ok zero_list"
proof -
  have "terminated zero_list"
    by (simp add: terminated_def zero_list_def zero_slot_def list_all_iff CONFIG_VALUE_MAX_def)
  then show ?thesis
    by (simp add: list_ok_def zero_list_wf zero_list_contiguous)
qed

lemma get_long_value_positive:
  "0 < out \<Longrightarrow> 0 < fst (snd (get_long_value n v out e))"
  by (auto simp: get_long_value_def split: prod.splits)

lemma inih_handler_ok:
  assumes "config_ok self"
  shows "config_ok (fst (snd (inih_handler (self, e) sec nm val)))"
proof -
  have a: "\<And>l. list_ok l \<Longrightarrow> list_ok (snd (append_value_to_list nm val l))"
    by (rule append_value_ok)
  have g: "0 < fst (snd (get_long_value nm val (reaper_frequency self) e))"
    using assms by (intro get_long_value_positive) (simp add: config_ok_def)
  show ?thesis
    using assms a [of "whitelist self"] a [of "blacklist self"] a [of "startscripts self"]
      a [of "endscripts self"] g
    by (simp add: inih_handler_def config_ok_def split_beta)
qed

lemma ini_parse_file_ok:
  "config_ok (fst user) \<Longrightarrow> config_ok (fst (ini_parse_file f user))"
proof (induction f arbitrary: user)
  case Nil
  then show ?case by simp
next
  case (Cons x f)
  obtain sec nm val where x: "x = (sec, nm, val)" by (cases x)
  obtain self e where u: "user = (self, e)" by (cases user)
  have "config_ok (fst (snd (inih_handler (self, e) sec nm val)))"
    using Cons.prems u by (intro inih_handler_ok) simp
  then show ?case using Cons.IH by (simp add: x u)
qed

lemma clear_config_ok: "config_ok (clear_config self)"
  by (simp add: config_ok_def clear_config_def zero_list_ok DEFAULT_REAPER_FREQ_def)

lemma load_config_file_ok: "config_ok (fst (load_config_file local system user))"
  by (cases user)
    (simp add: load_config_file_def Let_def ini_parse_file_ok clear_config_ok
      split: fopen_result.splits)

lemma inih_handler_keeps_whitelist:
  "(cstr sec, cstr nm) \<noteq> (''filter'', ''whitelist'') \<Longrightarrow>
   whitelist (fst (snd (inih_handler (self, e) sec nm val))) = whitelist self"
  by (auto simp: inih_handler_def strcmp_zero split_beta)

lemma ini_parse_file_keeps_whitelist:
  "list_all (\<lambda>(section, name, value). (cstr section, cstr name) \<noteq> (''filter'', ''whitelist'')) f \<Longrightarrow>
   whitelist (fst (ini_parse_file f user)) = whitelist (fst user)"
proof (induction f arbitrary: user)
  case Nil
  then show ?case by simp
next
  case (Cons x f)
  obtain sec nm val where x: "x = (sec, nm, val)" by (cases x)
  obtain self e where u: "user = (self, e)" by (cases user)
  have "whitelist (fst (snd (inih_handler (self, e) sec nm val))) = whitelist self"
    using Cons.prems by (intro inih_handler_keeps_whitelist) (auto simp: x)
  then show ?case using Cons.IH [of "snd (inih_handler (self, e) sec nm val)"] Cons.prems
    by (simp add: x u)
qed

lemma load_config_file_no_whitelist:
  assumes "list_all (\<lambda>(section, name, value). (cstr section, cstr name) \<noteq> (''filter'', ''whitelist'')) f"
  shows "whitelist (fst (load_config_file (Opened f) system (self, e))) = zero_list"
  using ini_parse_file_keeps_whitelist [OF assms, of "(clear_config self, e)"]
  by (simp add: load_config_file_def clear_config_def)

lemma append_value_to_list_name:
  "append_value_to_list n v l = append_value_to_list n' v l"
  by (simp add: append_value_to_list_def)

lemma append_values_name: "append_values n vs l = append_values n' vs l"
proof (induction vs arbitrary: l)
  case Nil
  show ?case by simp
next
  case (Cons v vs)
  show ?case
    using Cons.IH append_value_to_list_name [of n v l n']
    by (simp add: split_beta)
qed

lemma entries_zero_list: "entries zero_list = []"
  by (simp add: entries_def zero_list_def CONFIG_LIST_MAX_def slot_empty_zero_slot)

lemma occupied_count_zero_list: "occupied_count zero_list = 0"
  by (simp add: zero_list_def occupied_count_replicate slot_empty_zero_slot)

lemma append_value_entries:
  assumes "wf_list l" "contiguous l" "occupied_count l < CONFIG_LIST_MAX"
    "cstr v \<noteq> []" "strlen v < CONFIG_VALUE_MAX"
  shows "entries (snd (append_value_to_list n v l)) = entries l @ [cstr v]"
proof -
  let ?P = "\<lambda>s. \<not> slot_empty s"
  let ?s = "cstr v @ replicate (CONFIG_VALUE_MAX - strlen v) NUL"
  have len: "length l = CONFIG_LIST_MAX" using assms(1) by (simp add: wf_list_def)
  have fe: "first_empty l < CONFIG_LIST_MAX"
    using assms(3) first_empty_lt_iff [of l] by (simp add: len)
  then have fel: "first_empty l < length l" by (simp add: len)
  from fel obtain pre post where d: "l = pre @ (l ! first_empty l) # post"
    and lp: "length pre = first_empty l"
    and occ: "\<forall>s\<in>set pre. \<not> slot_empty s"
    and emp: "slot_empty (l ! first_empty l)"
    by (rule first_empty_decomp)
  have occ': "\<And>x. x \<in> set pre \<Longrightarrow> \<not> slot_empty x" using occ by simp
  have post: "list_all slot_empty post"
    using assms(2) occ emp by (subst (asm) d) (simp add: contiguous_append)
  then have tp: "takeWhile ?P post = []"
    by (cases post) simp_all
  have eq: "append_value_to_list n v l = (True, l[first_empty l := ?s])"
    using assms(1) fe assms(5) by (rule append_value_short)
  have upd: "l[first_empty l := ?s] = pre @ ?s # post"
    using lp by (subst d) (simp add: list_update_append)
  have ns: "\<not> slot_empty ?s" using assms(4) by (simp add: slot_empty_padded)
  have t1: "takeWhile ?P (pre @ ?s # post) = pre @ takeWhile ?P (?s # post)"
    using occ' by (rule takeWhile_append2)
  have t2: "takeWhile ?P (pre @ (l ! first_empty l) # post) =
              pre @ takeWhile ?P ((l ! first_empty l) # post)"
    using occ' by (rule takeWhile_append2)
  have e1: "entries (pre @ ?s # post) = map cstr pre @ [cstr v]"
    unfolding entries_def t1 using ns tp by (simp add: cstr_padded)
  have "entries (pre @ (l ! first_empty l) # post) = map cstr pre"
    unfolding entries_def t2 using emp by simp
  then have e2: "entries l = map cstr pre" using d by simp
  show ?thesis by (simp add: eq upd e1 e2)
qed

lemma append_values_entries:
  assumes "wf_list l" "contiguous l"
    "\<forall>v\<in>set vs. cstr v \<noteq> [] \<and> strlen v < CONFIG_VALUE_MAX"
  shows "entries (snd (append_values n vs l)) =
           entries l @ map cstr (take (CONFIG_LIST_MAX - occupied_count l) vs)"
  using assms
proof (induction vs arbitrary: l)
  case Nil
  then show ?case by simp
next
  case (Cons v vs)
  have len: "length l = CONFIG_LIST_MAX" using Cons.prems(1) by (simp add: wf_list_def)
  have le: "occupied_count l \<le> CONFIG_LIST_MAX" using occupied_count_le [of l] by (simp add: len)
  obtain ok l1 where a: "append_value_to_list n v l = (ok, l1)" by (cases "append_value_to_list n v l")
  have wf1: "wf_list l1" using append_value_wf [OF Cons.prems(1), of n v] by (simp add: a)
  have c1: "contiguous l1"
    using append_value_contiguous [OF Cons.prems(1,2), of n v] by (simp add: a)
  have rest: "\<forall>v\<in>set vs. cstr v \<noteq> [] \<and> strlen v < CONFIG_VALUE_MAX" using Cons.prems(3) by simp
  have IH: "entries (snd (append_values n vs l1)) =
           entries l1 @ map cstr (take (CONFIG_LIST_MAX - occupied_count l1) vs)"
    using wf1 c1 rest by (rule Cons.IH)
  have step: "snd (append_values n (v # vs) l) = snd (append_values n vs l1)"
    by (simp add: a split_beta)
  show ?case
  proof (cases "occupied_count l < CONFIG_LIST_MAX")
    case True
    have v: "cstr v \<noteq> []" "strlen v < CONFIG_VALUE_MAX" using Cons.prems(3) by simp_all
    have oc: "occupied_count l1 = Suc (occupied_count l)"
      using append_value_occupies(2) [OF Cons.prems(1) True v, of n] by (simp add: a)
    have en: "entries l1 = entries l @ [cstr v]"
      using append_value_entries [OF Cons.prems(1,2) True v, of n] by (simp add: a)
    obtain k where k: "CONFIG_LIST_MAX - occupied_count l = Suc k"
      using True by (cases "CONFIG_LIST_MAX - occupied_count l") auto
    then have k1: "CONFIG_LIST_MAX - occupied_count l1 = k" using oc by simp
    show ?thesis unfolding step IH k k1 en by simp
  next
    case False
    then have full: "occupied_count l = CONFIG_LIST_MAX" using le by simp
    have "append_value_to_list n v l = (False, l)"
      using Cons.prems(1) full by (rule append_value_when_full)
    then have "l1 = l" using a by simp
    then show ?thesis unfolding step IH using full by simp
  qed
qed

lemma ini_parse_file_whitelist:
  "whitelist (fst (ini_parse_file f (self, e))) =
     snd (append_values ''whitelist'' (values_of ''filter'' ''whitelist'' f) (whitelist self))"
proof (induction f arbitrary: self e)
  case Nil
  show ?case by (simp add: values_of_def)
next
  case (Cons x f)
  obtain sec nm val where x: "x = (sec, nm, val)" by (cases x)
  obtain self1 e1 where h: "snd (inih_handler (self, e) sec nm val) = (self1, e1)"
    by (cases "snd (inih_handler (self, e) sec nm val)")
  have IH: "whitelist (fst (ini_parse_file f (self1, e1))) =
     snd (append_values ''whitelist'' (values_of ''filter'' ''whitelist'' f) (whitelist self1))"
    by (rule Cons.IH)
  show ?case
  proof (cases "cstr sec = ''filter'' \<and> cstr nm = ''whitelist''")
    case True
    have "whitelist self1 = snd (append_value_to_list nm val (whitelist self))"
      using h True by (auto simp: inih_handler_def strcmp_zero split_beta)
    then have "whitelist self1 = snd (append_value_to_list ''whitelist'' val (whitelist self))"
      using append_value_to_list_name [of nm val "whitelist self" "''whitelist''"] by simp
    then show ?thesis using True IH by (simp add: x h values_of_def split_beta)
  next
    case False
    then have "whitelist (fst (snd (inih_handler (self, e) sec nm val))) = whitelist self"
      by (intro inih_handler_keeps_whitelist) auto
    then have "whitelist self1 = whitelist self" by (simp add: h)
    then show ?thesis using False IH by (auto simp: x h values_of_def)
  qed
qed

lemma load_config_file_whitelist:
  "whitelist (fst (load_config_file (Opened f) system (self, e))) =
     snd (append_values ''whitelist'' (values_of ''filter'' ''whitelist'' f) zero_list)"
  using ini_parse_file_whitelist [of f "clear_config self" e]
  by (simp add: load_config_file_def clear_config_def)


section \<open>The properties\<close>

subsection \<open>The lists keep their shape\<close>

text \<open>
  C9. In each of the four lists the occupied slots come first: no occupied slot follows
  an empty one. This holds for every list once \<open>load_config_file\<close> has cleared the
  configuration, and \<open>append_value_to_list\<close> keeps it (and the dimensions of the
  list) whether it succeeds or fails.
\<close>

theorem contiguous_prefix_invariant:
  "contiguous (whitelist (clear_config self)) \<and> contiguous (blacklist (clear_config self)) \<and>
   contiguous (startscripts (clear_config self)) \<and> contiguous (endscripts (clear_config self)) \<and>
   (wf_list l \<and> contiguous l \<longrightarrow>
      wf_list (snd (append_value_to_list n v l)) \<and>
      contiguous (snd (append_value_to_list n v l)))"
  by (simp add: clear_config_def zero_list_contiguous append_value_wf append_value_contiguous)

theorem contiguous_prefix_invariant_witness:
  "wf_list (list_of [''a'']) \<and> contiguous (list_of [''a'']) \<and>
   wf_list (snd (append_value_to_list ''whitelist'' ''b'' (list_of [''a'']))) \<and>
   contiguous (snd (append_value_to_list ''whitelist'' ''b'' (list_of [''a''])))"
proof -
  have h1: "wf_list (list_of [''a''])"
    using one_a by (intro list_of_wf) simp_all
  have h2: "contiguous (list_of [''a''])"
    using one_a by (rule list_of_first_empty)
  show ?thesis
    using contiguous_prefix_invariant [where l = "list_of [''a'']" and n = "''whitelist''" and v = "''b''"]
      h1 h2 by blast
qed

subsection \<open>Appending to a list\<close>

text \<open>
  C4. A list with fewer than \<open>CONFIG_LIST_MAX\<close> occupied slots has a first empty slot.
  A value of at most \<open>CONFIG_VALUE_MAX - 1\<close> bytes is stored there (the slot holds the
  value, padded with NUL bytes; no other slot changes) and the append succeeds. A value
  of \<open>CONFIG_VALUE_MAX\<close> bytes or more makes the append fail: that slot is left all
  zero, every other slot is as before, and the first empty slot and the number of
  occupied slots are as before.
\<close>

theorem append_value_to_list_length_limit:
  assumes "wf_list l" and "occupied_count l < CONFIG_LIST_MAX"
  shows "first_empty l < CONFIG_LIST_MAX \<and> slot_empty (l ! first_empty l) \<and>
         (\<forall>j < first_empty l. \<not> slot_empty (l ! j)) \<and>
         (strlen v \<le> CONFIG_VALUE_MAX - 1 \<longrightarrow>
            fst (append_value_to_list n v l) = True \<and>
            cstr (snd (append_value_to_list n v l) ! first_empty l) = cstr v \<and>
            snd (append_value_to_list n v l) =
              l[first_empty l := cstr v @ replicate (CONFIG_VALUE_MAX - strlen v) NUL]) \<and>
         (CONFIG_VALUE_MAX \<le> strlen v \<longrightarrow>
            fst (append_value_to_list n v l) = False \<and>
            snd (append_value_to_list n v l) ! first_empty l = replicate CONFIG_VALUE_MAX NUL \<and>
            snd (append_value_to_list n v l) = l[first_empty l := replicate CONFIG_VALUE_MAX NUL] \<and>
            (\<forall>j. j \<noteq> first_empty l \<longrightarrow> snd (append_value_to_list n v l) ! j = l ! j) \<and>
            first_empty (snd (append_value_to_list n v l)) = first_empty l \<and>
            occupied_count (snd (append_value_to_list n v l)) = occupied_count l)"
proof -
  have len: "length l = CONFIG_LIST_MAX" using assms(1) by (simp add: wf_list_def)
  have fe: "first_empty l < CONFIG_LIST_MAX"
    using assms(2) first_empty_lt_iff [of l] by (simp add: len)
  then have fel: "first_empty l < length l" by (simp add: len)
  have emp: "slot_empty (l ! first_empty l)" using fel by (rule first_empty_slot)
  have before: "\<forall>j < first_empty l. \<not> slot_empty (l ! j)"
    by (simp add: before_first_empty)
  have short: "fst (append_value_to_list n v l) = True \<and>
      cstr (snd (append_value_to_list n v l) ! first_empty l) = cstr v \<and>
      snd (append_value_to_list n v l) =
        l[first_empty l := cstr v @ replicate (CONFIG_VALUE_MAX - strlen v) NUL]"
    if "strlen v \<le> CONFIG_VALUE_MAX - 1"
  proof -
    from that have "strlen v < CONFIG_VALUE_MAX" by (simp add: CONFIG_VALUE_MAX_def)
    then have "append_value_to_list n v l =
        (True, l[first_empty l := cstr v @ replicate (CONFIG_VALUE_MAX - strlen v) NUL])"
      using assms(1) fe by (simp add: append_value_short)
    then show ?thesis using fel by (simp add: cstr_padded)
  qed
  have long: "fst (append_value_to_list n v l) = False \<and>
      snd (append_value_to_list n v l) ! first_empty l = replicate CONFIG_VALUE_MAX NUL \<and>
      snd (append_value_to_list n v l) = l[first_empty l := replicate CONFIG_VALUE_MAX NUL] \<and>
      (\<forall>j. j \<noteq> first_empty l \<longrightarrow> snd (append_value_to_list n v l) ! j = l ! j) \<and>
      first_empty (snd (append_value_to_list n v l)) = first_empty l \<and>
      occupied_count (snd (append_value_to_list n v l)) = occupied_count l"
    if "CONFIG_VALUE_MAX \<le> strlen v"
  proof -
    have eq: "append_value_to_list n v l = (False, l[first_empty l := zero_slot])"
      using assms(1) fe that by (rule append_value_long)
    show ?thesis
      using fel update_first_empty_empty [OF fel slot_empty_zero_slot]
      by (simp add: eq zero_slot_def [symmetric])
  qed
  show ?thesis using fe emp before short long by blast
qed

theorem append_value_to_list_length_limit_witness:
  "wf_list (list_of [''a'']) \<and> occupied_count (list_of [''a'']) < CONFIG_LIST_MAX \<and>
   strlen ''b'' \<le> CONFIG_VALUE_MAX - 1 \<and>
   fst (append_value_to_list ''whitelist'' ''b'' (list_of [''a''])) = True \<and>
   cstr (snd (append_value_to_list ''whitelist'' ''b'' (list_of [''a''])) ! first_empty (list_of [''a''])) = cstr ''b'' \<and>
   CONFIG_VALUE_MAX \<le> strlen (replicate CONFIG_VALUE_MAX (CHR ''a'')) \<and>
   fst (append_value_to_list ''whitelist'' (replicate CONFIG_VALUE_MAX (CHR ''a'')) (list_of [''a''])) = False \<and>
   first_empty (snd (append_value_to_list ''whitelist'' (replicate CONFIG_VALUE_MAX (CHR ''a'')) (list_of [''a''])))
     = first_empty (list_of [''a''])"
proof -
  have h1: "wf_list (list_of [''a''])"
    using one_a by (intro list_of_wf) simp_all
  have h2: "occupied_count (list_of [''a'']) < CONFIG_LIST_MAX"
    using one_a list_of_first_empty(2) [OF one_a] by simp
  have h3: "strlen ''b'' \<le> CONFIG_VALUE_MAX - 1"
    by (simp add: strlen_def cstr_def CONFIG_VALUE_MAX_def)
  have h4: "CONFIG_VALUE_MAX \<le> strlen (replicate CONFIG_VALUE_MAX (CHR ''a''))"
    by (simp add: long_value)
  show ?thesis
    using append_value_to_list_length_limit [OF h1 h2, of "''b''" "''whitelist''"]
      append_value_to_list_length_limit [OF h1 h2, of "replicate CONFIG_VALUE_MAX (CHR ''a'')" "''whitelist''"]
      h1 h2 h3 h4 by blast
qed

text \<open>
  C10. Appending the empty string to a list that has an empty slot succeeds, and yet the
  strings the list holds are as before: the first empty slot is still the same one, no
  slot has become occupied, the scan stops where it did, and whatever is appended next
  gives the result it would have given without the empty append. When the empty slot
  was all zero, as every empty slot is after a load, the list is the same byte for byte.
  The order of the occupied slots plays no part.
\<close>

theorem append_empty_value:
  assumes "wf_list l" and "occupied_count l < CONFIG_LIST_MAX" and "cstr v = []"
  shows "fst (append_value_to_list n v l) = True \<and>
         map cstr (snd (append_value_to_list n v l)) = map cstr l \<and>
         entries (snd (append_value_to_list n v l)) = entries l \<and>
         first_empty (snd (append_value_to_list n v l)) = first_empty l \<and>
         occupied_count (snd (append_value_to_list n v l)) = occupied_count l \<and>
         scan_list (snd (append_value_to_list n v l)) 0 = scan_list l 0 \<and>
         append_value_to_list n w (snd (append_value_to_list n v l)) = append_value_to_list n w l \<and>
         (l ! first_empty l = replicate CONFIG_VALUE_MAX NUL \<longrightarrow> snd (append_value_to_list n v l) = l)"
proof -
  have len: "length l = CONFIG_LIST_MAX" using assms(1) by (simp add: wf_list_def)
  have fe: "first_empty l < CONFIG_LIST_MAX"
    using assms(2) first_empty_lt_iff [of l] by (simp add: len)
  then have fel: "first_empty l < length l" by (simp add: len)
  have emp: "slot_empty (l ! first_empty l)" using fel by (rule first_empty_slot)
  have sl: "length (l ! first_empty l) = CONFIG_VALUE_MAX"
    using assms(1) fe by (rule wf_list_nth)
  have "strlen v < CONFIG_VALUE_MAX" using assms(3) by (simp add: strlen_def CONFIG_VALUE_MAX_def)
  then have "append_value_to_list n v l =
      (True, l[first_empty l := cstr v @ replicate (CONFIG_VALUE_MAX - strlen v) NUL])"
    using assms(1) fe by (simp add: append_value_short)
  then have eq: "append_value_to_list n v l = (True, l[first_empty l := zero_slot])"
    using assms(3) by (simp add: strlen_def zero_slot_def)
  let ?l' = "l[first_empty l := zero_slot]"
  have wf': "wf_list ?l'" using assms(1) by (simp add: wf_list_update zero_slot_def)
  have fe': "first_empty ?l' = first_empty l" and oc': "occupied_count ?l' = occupied_count l"
    using update_first_empty_empty [OF fel slot_empty_zero_slot] by simp_all
  have "cstr (l ! first_empty l) = []"
    using emp sl by (intro cstr_slot_empty) (auto simp: CONFIG_VALUE_MAX_def)
  moreover have "cstr zero_slot = []"
    by (simp add: cstr_def zero_slot_def CONFIG_VALUE_MAX_def)
  ultimately have mp: "map cstr ?l' = map cstr l"
    using fel by (simp add: map_update list_update_same_conv)
  have tw: "takeWhile (\<lambda>s. \<not> slot_empty s) ?l' = takeWhile (\<lambda>s. \<not> slot_empty s) l"
  proof -
    from fel obtain pre post where d: "l = pre @ (l ! first_empty l) # post"
      and lp: "length pre = first_empty l"
      and occ: "\<forall>s\<in>set pre. \<not> slot_empty s"
      by (rule first_empty_decomp)
    have occ': "\<And>x. x \<in> set pre \<Longrightarrow> \<not> slot_empty x" using occ by simp
    have upd: "?l' = pre @ zero_slot # post"
      using lp by (subst d) (simp add: list_update_append)
    have "takeWhile (\<lambda>s. \<not> slot_empty s) (pre @ zero_slot # post) = pre"
      using takeWhile_append2 [of pre "\<lambda>s. \<not> slot_empty s" "zero_slot # post", OF occ']
      by (simp add: slot_empty_zero_slot)
    moreover have "takeWhile (\<lambda>s. \<not> slot_empty s) (pre @ (l ! first_empty l) # post) = pre"
      using takeWhile_append2 [of pre "\<lambda>s. \<not> slot_empty s" "(l ! first_empty l) # post", OF occ'] emp
      by simp
    ultimately show ?thesis using d upd by simp
  qed
  have en: "entries ?l' = entries l" by (simp add: entries_def tw)
  have sc: "scan_list ?l' 0 = scan_list l 0"
    using len fe' by (simp add: scan_list_first_empty)
  have nxt: "append_value_to_list n w ?l' = append_value_to_list n w l"
  proof (cases "strlen w < CONFIG_VALUE_MAX")
    case True
    then show ?thesis
      using assms(1) wf' fe fe' by (simp add: append_value_short)
  next
    case False
    then show ?thesis
      using assms(1) wf' fe fe' by (simp add: append_value_long)
  qed
  have same: "?l' = l" if "l ! first_empty l = replicate CONFIG_VALUE_MAX NUL"
    using that by (simp add: zero_slot_def list_update_same_conv fel)
  show ?thesis
    using mp en fe' oc' sc nxt same by (simp add: eq)
qed

theorem append_empty_value_witness:
  "wf_list (list_of [''a'']) \<and> occupied_count (list_of [''a'']) < CONFIG_LIST_MAX \<and>
   cstr '''' = [] \<and> list_of [''a''] ! first_empty (list_of [''a'']) = replicate CONFIG_VALUE_MAX NUL \<and>
   fst (append_value_to_list ''whitelist'' '''' (list_of [''a''])) = True \<and>
   snd (append_value_to_list ''whitelist'' '''' (list_of [''a''])) = list_of [''a'']"
proof -
  have h1: "wf_list (list_of [''a''])"
    using one_a by (intro list_of_wf) simp_all
  have h2: "occupied_count (list_of [''a'']) < CONFIG_LIST_MAX"
    using one_a list_of_first_empty(2) [OF one_a] by simp
  have h3: "cstr '''' = []" by (simp add: cstr_def)
  have "first_empty (list_of [''a'']) = 1"
    using list_of_first_empty(1) [OF one_a] by simp
  then have h4: "list_of [''a''] ! first_empty (list_of [''a'']) = replicate CONFIG_VALUE_MAX NUL"
    by (simp add: list_of_append CONFIG_LIST_MAX_def zero_slot_def)
  show ?thesis
    using append_empty_value [OF h1 h2 h3, of "''whitelist''" "''x''"] h1 h2 h3 h4 by blast
qed

text \<open>
  C5. Every sequence of appends to a list starts at the cleared list: a load clears the
  lists and then appends the file's values one by one (\<open>load_config_file_whitelist\<close>
  for the whitelist). Of such a sequence of non-empty values, each shorter than
  \<open>CONFIG_VALUE_MAX\<close> bytes, the first \<open>CONFIG_LIST_MAX\<close> appends succeed and every
  later one fails, and the list then holds the first \<open>CONFIG_LIST_MAX\<close> values in
  their order. An append to a list whose slots are all occupied fails and leaves the
  list as it was.
\<close>

theorem append_values_capacity:
  assumes "\<forall>v\<in>set vs. cstr v \<noteq> [] \<and> strlen v < CONFIG_VALUE_MAX"
  shows "fst (append_values n vs zero_list) =
           replicate (min (length vs) CONFIG_LIST_MAX) True @
           replicate (length vs - CONFIG_LIST_MAX) False \<and>
         entries (snd (append_values n vs zero_list)) = map cstr (take CONFIG_LIST_MAX vs) \<and>
         (wf_list l \<and> occupied_count l = CONFIG_LIST_MAX \<longrightarrow>
            append_value_to_list n w l = (False, l))"
proof -
  have r: "fst (append_values n vs zero_list) =
           replicate (min (length vs) CONFIG_LIST_MAX) True @
           replicate (length vs - CONFIG_LIST_MAX) False"
    using append_values_results [OF zero_list_wf assms, of n]
    by (simp add: occupied_count_zero_list)
  have e: "entries (snd (append_values n vs zero_list)) = map cstr (take CONFIG_LIST_MAX vs)"
    using append_values_entries [OF zero_list_wf zero_list_contiguous assms, of n]
    by (simp add: occupied_count_zero_list entries_zero_list)
  have f: "append_value_to_list n w l = (False, l)"
    if "wf_list l" "occupied_count l = CONFIG_LIST_MAX"
    using that by (rule append_value_when_full)
  show ?thesis using r e f by blast
qed

theorem append_values_capacity_witness:
  "cstr ''a'' \<noteq> [] \<and> strlen ''a'' < CONFIG_VALUE_MAX \<and>
   fst (append_values ''whitelist'' (replicate 33 ''a'') zero_list) = replicate 32 True @ [False] \<and>
   entries (snd (append_values ''whitelist'' (replicate 33 ''a'') zero_list)) = replicate 32 ''a'' \<and>
   wf_list (replicate CONFIG_LIST_MAX (slot_of ''a'')) \<and>
   occupied_count (replicate CONFIG_LIST_MAX (slot_of ''a'')) = CONFIG_LIST_MAX \<and>
   append_value_to_list ''whitelist'' ''b'' (replicate CONFIG_LIST_MAX (slot_of ''a'')) =
     (False, replicate CONFIG_LIST_MAX (slot_of ''a''))"
proof -
  have a: "cstr ''a'' \<noteq> []" "strlen ''a'' < CONFIG_VALUE_MAX" "cstr ''a'' = ''a''"
    by (simp_all add: CONFIG_VALUE_MAX_def strlen_def cstr_def)
  have h2: "\<forall>v\<in>set (replicate 33 ''a''). cstr v \<noteq> [] \<and> strlen v < CONFIG_VALUE_MAX"
    using a by simp
  have h3: "wf_list (replicate CONFIG_LIST_MAX (slot_of ''a''))"
    using a(2) by (simp add: wf_list_def wf_slot_def list_all_iff slot_of_length)
  have h4: "occupied_count (replicate CONFIG_LIST_MAX (slot_of ''a'')) = CONFIG_LIST_MAX"
    using a by (simp add: occupied_count_replicate slot_of_empty)
  note t = append_values_capacity [OF h2, of "''whitelist''" "replicate CONFIG_LIST_MAX (slot_of ''a'')" "''b''"]
  have r1: "fst (append_values ''whitelist'' (replicate 33 ''a'') zero_list) = replicate 32 True @ [False]"
    using t by (simp add: CONFIG_LIST_MAX_def)
  have r2: "entries (snd (append_values ''whitelist'' (replicate 33 ''a'') zero_list)) = replicate 32 ''a''"
    using t a(3) by (simp add: CONFIG_LIST_MAX_def)
  have r3: "append_value_to_list ''whitelist'' ''b'' (replicate CONFIG_LIST_MAX (slot_of ''a'')) =
     (False, replicate CONFIG_LIST_MAX (slot_of ''a''))"
    using t h3 h4 by blast
  show ?thesis using a(1,2) h3 h4 r1 r2 r3 by simp
qed

subsection \<open>The handler and the load\<close>

text \<open>
  C8. For a section and name that are not one of the five pairs the handler knows, the
  handler changes nothing (neither the configuration nor \<open>errno\<close>) and returns 1,
  which lets the tokenizer go on. It returns 1 for every input, so also when a validator
  has failed.
\<close>

theorem inih_handler_unrecognized:
  assumes "(cstr section, cstr name) \<notin>
             {(''filter'', ''whitelist''), (''filter'', ''blacklist''), (''general'', ''reaper_freq''),
              (''custom'', ''start''), (''custom'', ''end'')}"
  shows "inih_handler (self, errno) section name value = (1, self, errno) \<and>
         fst (inih_handler user section' name' value') = 1"
proof
  show "inih_handler (self, errno) section name value = (1, self, errno)"
    using assms by (auto simp: inih_handler_def strcmp_zero)
  show "fst (inih_handler user section' name' value') = 1"
    by (rule inih_handler_continue)
qed

theorem inih_handler_unrecognized_witness:
  "(cstr ''filter'', cstr ''greylist'') \<notin>
             {(''filter'', ''whitelist''), (''filter'', ''blacklist''), (''general'', ''reaper_freq''),
              (''custom'', ''start''), (''custom'', ''end'')} \<and>
   inih_handler (default_config, 0) ''filter'' ''greylist'' ''steam'' = (1, default_config, 0) \<and>
   fst (inih_handler (default_config, 0) ''general'' ''reaper_freq'' ''-5'') = 1"
proof -
  have h: "(cstr ''filter'', cstr ''greylist'') \<notin>
             {(''filter'', ''whitelist''), (''filter'', ''blacklist''), (''general'', ''reaper_freq''),
              (''custom'', ''start''), (''custom'', ''end'')}"
    by (simp add: cstr_def)
  show ?thesis
    using inih_handler_unrecognized [OF h, of default_config 0 "''steam''" "(default_config, 0)"
        "''general''" "''reaper_freq''" "''-5''"] h
    by blast
qed

text \<open>
  C7, as stated, has the load keep the prior lists and reaper frequency when no file can
  be opened. The load clears the configuration before it looks for a file: a whitelist
  holding \<open>x\<close> and a frequency of 7 are gone after a load that finds no file.
\<close>

theorem load_without_file_counterexample:
  "cstr (whitelist (default_config\<lparr>whitelist := list_of [''x''], reaper_frequency := 7\<rparr>) ! 0) = ''x'' \<and>
   cstr (whitelist (fst (load_config_file (Failed 2) (Failed 2)
           (default_config\<lparr>whitelist := list_of [''x''], reaper_frequency := 7\<rparr>, 0))) ! 0) = [] \<and>
   reaper_frequency (fst (load_config_file (Failed 2) (Failed 2)
           (default_config\<lparr>whitelist := list_of [''x''], reaper_frequency := 7\<rparr>, 0))) = 5"
proof -
  have x: "strlen ''x'' < CONFIG_VALUE_MAX" "cstr ''x'' = ''x''"
    by (simp_all add: strlen_def cstr_def CONFIG_VALUE_MAX_def)
  have "list_of [''x''] ! 0 = slot_of ''x''"
    by (simp add: list_of_append CONFIG_LIST_MAX_def)
  then have a: "cstr (list_of [''x''] ! 0) = ''x''"
    using x by (simp add: slot_of_cstr)
  have b: "cstr (zero_list ! 0) = []"
    by (simp add: zero_list_def zero_slot_def CONFIG_LIST_MAX_def CONFIG_VALUE_MAX_def cstr_def)
  show ?thesis
    using a b by (simp add: load_config_file_def clear_config_def DEFAULT_REAPER_FREQ_def)
qed

text \<open>
  C7, amended. When neither candidate path can be opened, the load leaves the cleared
  configuration: the four lists all zero and the reaper frequency 5, whatever the
  configuration was before.
\<close>

theorem load_without_file:
  "load_config_file (Failed e1) (Failed e2) (self, errno) = (clear_config self, e2) \<and>
   whitelist (clear_config self) = replicate CONFIG_LIST_MAX (replicate CONFIG_VALUE_MAX NUL) \<and>
   blacklist (clear_config self) = replicate CONFIG_LIST_MAX (replicate CONFIG_VALUE_MAX NUL) \<and>
   startscripts (clear_config self) = replicate CONFIG_LIST_MAX (replicate CONFIG_VALUE_MAX NUL) \<and>
   endscripts (clear_config self) = replicate CONFIG_LIST_MAX (replicate CONFIG_VALUE_MAX NUL) \<and>
   reaper_frequency (clear_config self) = 5 \<and>
   inotfd (clear_config self) = inotfd self \<and> inotwd (clear_config self) = inotwd self"
  by (simp add: load_config_file_def clear_config_def zero_list_def zero_slot_def
      DEFAULT_REAPER_FREQ_def)

subsection \<open>The queries\<close>

text \<open>
  C2. \<open>config_get_client_whitelisted\<close> answers true when the whitelist has no entry,
  for every client, the empty string too. When the whitelist has entries it answers true
  exactly when one of them is a substring of the client. The entries are the strings in
  the slots before the first empty one; each slot is taken to hold a terminated string.
\<close>

theorem config_get_client_whitelisted_spec:
  assumes "wf_list (whitelist self)" and "terminated (whitelist self)"
  shows "(entries (whitelist self) = [] \<longrightarrow> config_get_client_whitelisted self client) \<and>
         (entries (whitelist self) \<noteq> [] \<longrightarrow>
            config_get_client_whitelisted self client =
              (\<exists>e\<in>set (entries (whitelist self)). sublist e (cstr client)))"
proof -
  have len: "length (whitelist self) = CONFIG_LIST_MAX"
    using assms(1) by (simp add: wf_list_def)
  then have ne: "whitelist self \<noteq> []" by (auto simp: CONFIG_LIST_MAX_def)
  show ?thesis
    using entries_Nil_iff [OF ne] strstr_loop_sublist [OF len, of client]
    by (simp add: config_get_client_whitelisted_def)
qed

theorem config_get_client_whitelisted_spec_witness:
  "wf_list (whitelist (default_config\<lparr>whitelist := list_of [''foo'']\<rparr>)) \<and>
   terminated (whitelist (default_config\<lparr>whitelist := list_of [''foo'']\<rparr>)) \<and>
   entries (whitelist (default_config\<lparr>whitelist := list_of [''foo'']\<rparr>)) = [''foo''] \<and>
   config_get_client_whitelisted (default_config\<lparr>whitelist := list_of [''foo'']\<rparr>) ''myfoogame'' \<and>
   \<not> config_get_client_whitelisted (default_config\<lparr>whitelist := list_of [''foo'']\<rparr>) ''bar'' \<and>
   wf_list (whitelist default_config) \<and> terminated (whitelist default_config) \<and>
   entries (whitelist default_config) = [] \<and>
   config_get_client_whitelisted default_config []"
proof -
  have foo: "length [''foo''] < CONFIG_LIST_MAX"
    "\<forall>v\<in>set [''foo'']. strlen v < CONFIG_VALUE_MAX \<and> cstr v \<noteq> []"
    by (simp_all add: CONFIG_LIST_MAX_def CONFIG_VALUE_MAX_def strlen_def cstr_def)
  have h1: "wf_list (whitelist (default_config\<lparr>whitelist := list_of [''foo'']\<rparr>))"
    using foo by (simp add: list_of_wf)
  have h2: "terminated (whitelist (default_config\<lparr>whitelist := list_of [''foo'']\<rparr>))"
    using foo by (simp add: list_of_terminated)
  have h3: "entries (whitelist (default_config\<lparr>whitelist := list_of [''foo'']\<rparr>)) = [''foo'']"
    using list_of_first_empty(4) [OF foo] by (simp add: cstr_def)
  have s1: "sublist ''foo'' (cstr ''myfoogame'')"
    by (simp add: sublist_strstr_from cstr_def)
  have s2: "\<not> sublist ''foo'' (cstr ''bar'')"
    by (simp add: sublist_strstr_from cstr_def)
  have h4: "wf_list (whitelist default_config)"
    by (simp add: default_config_def zero_list_wf)
  have h5: "terminated (whitelist default_config)"
    by (simp add: default_config_def terminated_def zero_list_def zero_slot_def list_all_iff
        CONFIG_VALUE_MAX_def)
  have h6: "entries (whitelist default_config) = []"
    by (simp add: default_config_def entries_def zero_list_def CONFIG_LIST_MAX_def
        slot_empty_zero_slot)
  show ?thesis
    using config_get_client_whitelisted_spec [OF h1 h2, of "''myfoogame''"]
      config_get_client_whitelisted_spec [OF h1 h2, of "''bar''"]
      config_get_client_whitelisted_spec [OF h4 h5, of "[]"]
      h1 h2 h3 h4 h5 h6 s1 s2
    by simp
qed

text \<open>
  C3. \<open>config_get_client_blacklisted\<close> answers false when the blacklist has no
  entry, and in every case answers true exactly when one of the blacklist's entries is a
  substring of the client.
\<close>

theorem config_get_client_blacklisted_spec:
  assumes "wf_list (blacklist self)" and "terminated (blacklist self)"
  shows "(entries (blacklist self) = [] \<longrightarrow> \<not> config_get_client_blacklisted self client) \<and>
         config_get_client_blacklisted self client =
           (\<exists>e\<in>set (entries (blacklist self)). sublist e (cstr client))"
proof -
  have len: "length (blacklist self) = CONFIG_LIST_MAX"
    using assms(1) by (simp add: wf_list_def)
  have "config_get_client_blacklisted self client =
           (\<exists>e\<in>set (entries (blacklist self)). sublist e (cstr client))"
    using strstr_loop_sublist [OF len, of client]
    by (simp add: config_get_client_blacklisted_def)
  then show ?thesis by simp
qed

theorem config_get_client_blacklisted_spec_witness:
  "wf_list (blacklist (default_config\<lparr>blacklist := list_of [''foo'']\<rparr>)) \<and>
   terminated (blacklist (default_config\<lparr>blacklist := list_of [''foo'']\<rparr>)) \<and>
   entries (blacklist (default_config\<lparr>blacklist := list_of [''foo'']\<rparr>)) = [''foo''] \<and>
   config_get_client_blacklisted (default_config\<lparr>blacklist := list_of [''foo'']\<rparr>) ''myfoogame'' \<and>
   \<not> config_get_client_blacklisted (default_config\<lparr>blacklist := list_of [''foo'']\<rparr>) ''bar'' \<and>
   wf_list (blacklist default_config) \<and> terminated (blacklist default_config) \<and>
   entries (blacklist default_config) = [] \<and>
   \<not> config_get_client_blacklisted default_config ''steam''"
proof -
  have foo: "length [''foo''] < CONFIG_LIST_MAX"
    "\<forall>v\<in>set [''foo'']. strlen v < CONFIG_VALUE_MAX \<and> cstr v \<noteq> []"
    by (simp_all add: CONFIG_LIST_MAX_def CONFIG_VALUE_MAX_def strlen_def cstr_def)
  have h1: "wf_list (blacklist (default_config\<lparr>blacklist := list_of [''foo'']\<rparr>))"
    using foo by (simp add: list_of_wf)
  have h2: "terminated (blacklist (default_config\<lparr>blacklist := list_of [''foo'']\<rparr>))"
    using foo by (simp add: list_of_terminated)
  have h3: "entries (blacklist (default_config\<lparr>blacklist := list_of [''foo'']\<rparr>)) = [''foo'']"
    using list_of_first_empty(4) [OF foo] by (simp add: cstr_def)
  have s1: "sublist ''foo'' (cstr ''myfoogame'')"
    by (simp add: sublist_strstr_from cstr_def)
  have s2: "\<not> sublist ''foo'' (cstr ''bar'')"
    by (simp add: sublist_strstr_from cstr_def)
  have h4: "wf_list (blacklist default_config)"
    by (simp add: default_config_def zero_list_wf)
  have h5: "terminated (blacklist default_config)"
    by (simp add: default_config_def terminated_def zero_list_def zero_slot_def list_all_iff
        CONFIG_VALUE_MAX_def)
  have h6: "entries (blacklist default_config) = []"
    by (simp add: default_config_def entries_def zero_list_def CONFIG_LIST_MAX_def
        slot_empty_zero_slot)
  show ?thesis
    using config_get_client_blacklisted_spec [OF h1 h2, of "''myfoogame''"]
      config_get_client_blacklisted_spec [OF h1 h2, of "''bar''"]
      config_get_client_blacklisted_spec [OF h4 h5, of "''steam''"]
      h1 h2 h3 h4 h5 h6 s1 s2
    by simp
qed

subsection \<open>The stale errno\<close>

text \<open>
  C6. \<open>get_long_value\<close> tests \<open>errno == ERANGE\<close> after \<open>strtol\<close> but never
  clears \<open>errno\<close> before the call. When \<open>errno\<close> holds \<open>ERANGE\<close> on entry, the
  valid value \<open>10\<close> is rejected and the output is left alone, where it is accepted
  with \<open>errno\<close> clear. So in one file, an entry that overflows makes the valid entry
  after it fail: the reaper frequency stays 5. (With \<open>errno\<close> other than
  \<open>ERANGE\<close> on entry the function fails exactly as C6 says:
  \<open>get_long_value_fresh_errno\<close>.)
\<close>

theorem get_long_value_stale_errno:
  "get_long_value name ''10'' output ERANGE = (False, output, ERANGE) \<and>
   get_long_value name ''10'' output 0 = (True, 10, 0) \<and>
   reaper_frequency (fst (ini_parse_file
       [(''general'', ''reaper_freq'', ''99999999999999999999''),
        (''general'', ''reaper_freq'', ''10'')] (clear_config self, 0))) = 5"
  by (simp add: inih_handler_reaper_freq get_long_value_10 get_long_value_overflow
      clear_config_def DEFAULT_REAPER_FREQ_def ERANGE_def)

text \<open>
  C1. The load clears the configuration first, so its result does not depend on the
  lists and the frequency it finds (\<open>load_config_file_prior\<close>), and a file with no
  whitelist entry leaves the whitelist empty (\<open>load_config_file_no_whitelist\<close>). It
  does depend on \<open>errno\<close>, through \<open>get_long_value\<close>: a file that sets the
  frequency to 10 and then gives a value that overflows leaves 10 when loaded first and 5
  when loaded again, and a file that only sets the frequency to 10 leaves 5 when
  \<open>errno\<close> holds \<open>ERANGE\<close> on entry.
\<close>

theorem load_config_file_stale_errno:
  "reaper_frequency (fst (load_config_file
       (Opened [(''general'', ''reaper_freq'', ''10''),
                (''general'', ''reaper_freq'', ''99999999999999999999'')]) system (self, 0))) = 10 \<and>
   reaper_frequency (fst (load_config_file
       (Opened [(''general'', ''reaper_freq'', ''10''),
                (''general'', ''reaper_freq'', ''99999999999999999999'')]) system
       (load_config_file
          (Opened [(''general'', ''reaper_freq'', ''10''),
                   (''general'', ''reaper_freq'', ''99999999999999999999'')]) system (self, 0)))) = 5 \<and>
   reaper_frequency (fst (load_config_file
       (Opened [(''general'', ''reaper_freq'', ''10'')]) system (self, 0))) = 10 \<and>
   reaper_frequency (fst (load_config_file
       (Opened [(''general'', ''reaper_freq'', ''10'')]) system (self, ERANGE))) = 5"
  by (simp add: load_config_file_def inih_handler_reaper_freq get_long_value_10
      get_long_value_overflow clear_config_def DEFAULT_REAPER_FREQ_def ERANGE_def)

end
